theory Spec2Isabelle
  imports Main "HOL-Library.Multiset" "HOL-Library.Char_ord" "HOL-Library.List_Lexorder"
begin

section \<open>Strings and arrays of the host language\<close>

text \<open>
  A JavaScript string is a sequence of UTF-16 code units and \<open>.length\<close> counts them.
  A string is modelled as a \<open>char list\<close>, one \<open>char\<close> per code unit, which covers the
  code units below 256; the only code units the source looks at are ASCII ones. Every
  operation below is the list operation of the same name in the source.
\<close>

definition NL :: char where
  "NL = CHR 0x0A"

text \<open>\<open>s.split("\n")\<close>: never empty, the empty string gives one empty line.\<close>

fun split_nl :: "string \<Rightarrow> string list" where
  "split_nl [] = [[]]"
| "split_nl (c # cs) =
     (if c = NL then [] # split_nl cs
      else (case split_nl cs of [] \<Rightarrow> [[c]] | l # ls \<Rightarrow> (c # l) # ls))"

text \<open>\<open>xs.join(sep)\<close>.\<close>

fun join :: "string \<Rightarrow> string list \<Rightarrow> string" where
  "join sep [] = []"
| "join sep [x] = x"
| "join sep (x # y # ys) = x @ sep @ join sep (y # ys)"

text \<open>
  \<open>xs.slice(start, end)\<close> of arrays and strings, for integer arguments: a negative
  index counts from the end, and both indices are clamped to the length.
  \<open>xs.slice(start)\<close> is \<open>slice_from\<close>.
\<close>

definition slice :: "'a list \<Rightarrow> int \<Rightarrow> int \<Rightarrow> 'a list" where
  "slice xs start fin =
     (let len = int (length xs);
          k = (if start < 0 then max (len + start) 0 else min start len);
          e = (if fin < 0 then max (len + fin) 0 else min fin len)
      in take (nat (e - k)) (drop (nat k) xs))"

definition slice_from :: "'a list \<Rightarrow> int \<Rightarrow> 'a list" where
  "slice_from xs start = slice xs start (int (length xs))"

text \<open>Template-literal rendering of a number that holds an integer.\<close>

definition digit_char :: "nat \<Rightarrow> char" where
  "digit_char d = char_of (48 + d)"

fun show_nat :: "nat \<Rightarrow> string" where
  "show_nat n = (if n < 10 then [digit_char n] else show_nat (n div 10) @ [digit_char (n mod 10)])"

declare show_nat.simps [simp del]

definition show_int :: "int \<Rightarrow> string" where
  "show_int i = (if i < 0 then CHR ''-'' # show_nat (nat (- i)) else show_nat (nat i))"

section \<open>The log store\<close>

record LogEntry =
  id :: string
  command :: string
  timestamp :: string
  stdout :: string
  stderr :: string
  exitCode :: int

text \<open>The shape \<open>{ stdout, stderr, exitCode }\<close> that \<open>execNix\<close> resolves with.\<close>

record exec_result =
  r_stdout :: string
  r_stderr :: string
  r_exitCode :: int

text \<open>
  \<open>Map<string, LogEntry>\<close> iterates in insertion order, and \<open>storeLog\<close> depends on that
  order, so the map is an association list in insertion order. \<open>map_set\<close> keeps the
  position of a key that is present and appends a new one; \<open>map_delete\<close> removes the key.
\<close>

type_synonym log_map = "(string \<times> LogEntry) list"

definition map_get :: "log_map \<Rightarrow> string \<Rightarrow> LogEntry option" where
  "map_get m k = map_of m k"

definition map_set :: "log_map \<Rightarrow> string \<Rightarrow> LogEntry \<Rightarrow> log_map" where
  "map_set m k v =
     (if k \<in> set (map fst m) then map (\<lambda>p. if fst p = k then (k, v) else p) m
      else m @ [(k, v)])"

definition map_delete :: "log_map \<Rightarrow> string \<Rightarrow> log_map" where
  "map_delete m k = filter (\<lambda>p. fst p \<noteq> k) m"

definition MAX_LOGS :: nat where
  "MAX_LOGS = 100"

text \<open>
  The module state: \<open>logStore\<close> and \<open>logCounter\<close>. The counter is a JavaScript number
  that starts at 0 and that only \<open>++logCounter\<close> changes, one insertion at a time; such a
  number is an exact integer up to \<open>2^53\<close>, and the model takes a natural number.
\<close>

record state =
  logStore :: log_map
  logCounter :: nat

definition init_state :: state where
  "init_state = \<lparr>logStore = [], logCounter = 0\<rparr>"

definition mk_id :: "nat \<Rightarrow> string" where
  "mk_id n = ''log-'' @ show_nat n"

text \<open>The object literal that \<open>storeLog\<close> puts into the map.\<close>

definition log_entry :: "string \<Rightarrow> string \<Rightarrow> string \<Rightarrow> exec_result \<Rightarrow> LogEntry" where
  "log_entry i now cmd r =
     \<lparr>id = i, command = cmd, timestamp = now,
      stdout = r_stdout r, stderr = r_stderr r, exitCode = r_exitCode r\<rparr>"

text \<open>
  \<open>storeLog(command, result)\<close>. The reading of the clock, \<open>new Date().toISOString()\<close>,
  is the argument \<open>now\<close>. The result is the id and the state after the call.
  \<open>Array.from(logStore.keys())[0]\<close> is \<open>undefined\<close> on an empty map, and deleting it
  changes nothing.
\<close>

definition storeLog :: "state \<Rightarrow> string \<Rightarrow> string \<Rightarrow> exec_result \<Rightarrow> string \<times> state" where
  "storeLog s now cmd r =
     (let c = logCounter s + 1;
          i = mk_id c;
          m = (if length (logStore s) \<ge> MAX_LOGS
               then (case map fst (logStore s) of
                       [] \<Rightarrow> logStore s
                     | oldest # _ \<Rightarrow> map_delete (logStore s) oldest)
               else logStore s)
      in (i, \<lparr>logStore = map_set m i (log_entry i now cmd r), logCounter = c\<rparr>))"

text \<open>A run of insertions: each request is the clock reading, the command and the result.\<close>

type_synonym store_req = "string \<times> string \<times> exec_result"

fun run_storeLog :: "state \<Rightarrow> store_req list \<Rightarrow> string list \<times> state" where
  "run_storeLog s [] = ([], s)"
| "run_storeLog s ((now, cmd, r) # qs) =
     (case storeLog s now cmd r of
        (i, s') \<Rightarrow> (case run_storeLog s' qs of (ids, s'') \<Rightarrow> (i # ids, s'')))"

section \<open>The output formatter\<close>

definition MAX_OUTPUT_LINES :: nat where
  "MAX_OUTPUT_LINES = 50"

definition MAX_OUTPUT_CHARS :: nat where
  "MAX_OUTPUT_CHARS = 4000"

text \<open>\<open>s.includes(sub)\<close> and a match of a literal at the start of the line.\<close>

definition startsWith :: "string \<Rightarrow> string \<Rightarrow> bool" where
  "startsWith s p = (take (length p) s = p)"

fun includes_str :: "string \<Rightarrow> string \<Rightarrow> bool" where
  "includes_str [] sub = (sub = [])"
| "includes_str (c # cs) sub = (startsWith (c # cs) sub \<or> includes_str cs sub)"

text \<open>
  The class \<open>\s\<close> of the regular expressions, which is also what \<open>trim\<close> strips,
  among the code units below 256; and the class \<open>\d\<close>.
\<close>

definition is_space :: "char \<Rightarrow> bool" where
  "is_space c = (of_char c \<in> {9, 10, 11, 12, 13, 32, 160 :: nat})"

definition is_digit :: "char \<Rightarrow> bool" where
  "is_digit c = (48 \<le> (of_char c :: nat) \<and> (of_char c :: nat) \<le> 57)"

definition trim :: "string \<Rightarrow> string" where
  "trim s = rev (dropWhile is_space (rev (dropWhile is_space s)))"

text \<open>
  \<open>/^\s*\d+(\.\d+)?\s*(KiB|MiB|GiB)/\<close>. The classes of the pattern are disjoint, so
  the greedy reading decides the match: blanks, at least one digit, a fraction when a
  dot and a digit follow, blanks, one of the three units.
\<close>

definition is_progress :: "string \<Rightarrow> bool" where
  "is_progress line =
     (let a = dropWhile is_space line;
          b = dropWhile is_digit a;
          c = (case b of
                 d # e # rest \<Rightarrow>
                   (if d = CHR ''.'' \<and> is_digit e then dropWhile is_digit (e # rest) else b)
               | _ \<Rightarrow> b);
          u = dropWhile is_space c
      in a \<noteq> [] \<and> is_digit (hd a) \<and>
         (startsWith u ''KiB'' \<or> startsWith u ''MiB'' \<or> startsWith u ''GiB''))"

text \<open>The predicate of the \<open>filter\<close> over the lines of stderr: \<open>True\<close> keeps the line.\<close>

definition keep_line :: "string \<Rightarrow> bool" where
  "keep_line line =
     (if includes_str line ''Warning'' \<and> includes_str line ''experimental'' then False
      else if includes_str line [CHR 0x1B, CHR ''[''] \<or> includes_str line [CHR 0x0D] then False
      else if startsWith line ''copying path'' then False
      else if is_progress line then False
      else True)"

definition needsLog :: "exec_result \<Rightarrow> bool" where
  "needsLog r =
     (let fullOutput = r_stdout r @ r_stderr r
      in length fullOutput > MAX_OUTPUT_CHARS \<or> length (split_nl fullOutput) > MAX_OUTPUT_LINES)"

text \<open>The display before truncation: stdout, then the filtered and trimmed stderr.\<close>

definition display_output :: "exec_result \<Rightarrow> string" where
  "display_output r =
     (let output = (if r_stdout r \<noteq> [] then r_stdout r else []);
          filteredStderr = trim (join [NL] (filter keep_line (split_nl (r_stderr r))))
      in if r_stderr r \<noteq> [] \<and> filteredStderr \<noteq> []
         then output @ (if output \<noteq> [] then [NL] else []) @ filteredStderr
         else output)"

text \<open>The truncation by lines, on the array \<open>lines\<close>.\<close>

definition truncate_lines :: "string list \<Rightarrow> string list" where
  "truncate_lines lines =
     (if length lines > MAX_OUTPUT_LINES
      then (let keepLines = MAX_OUTPUT_LINES div 2;
                removed = length lines - MAX_OUTPUT_LINES
            in slice lines 0 (int keepLines)
               @ [''... ('' @ show_nat removed @ '' lines omitted) ...'']
               @ slice_from lines (- int keepLines))
      else lines)"

text \<open>The truncation by characters, on the string \<open>output\<close>.\<close>

definition truncate_chars :: "string \<Rightarrow> string" where
  "truncate_chars output =
     (if length output > MAX_OUTPUT_CHARS
      then (let keepChars = MAX_OUTPUT_CHARS div 2;
                removed = length output - MAX_OUTPUT_CHARS
            in slice output 0 (int keepChars)
               @ [NL] @ ''... ('' @ show_nat removed @ '' characters omitted) ...'' @ [NL]
               @ slice_from output (- int keepChars))
      else output)"

definition status_footer :: "exec_result \<Rightarrow> string option \<Rightarrow> string" where
  "status_footer r logId =
     (let statusParts =
            (if r_exitCode r \<noteq> 0 then [''Exit code: '' @ show_int (r_exitCode r)] else [])
            @ (case logId of
                 None \<Rightarrow> []
               | Some i \<Rightarrow> [''Full log: use nix_get_log with id='' @ [CHR 0x22] @ i @ [CHR 0x22]])
      in if length statusParts > 0 then [NL, NL] @ ''['' @ join '' | '' statusParts @ '']'' else [])"

text \<open>
  \<open>formatResult(command, result)\<close>: the log is stored first, from the unfiltered result;
  the display is then filtered, truncated and given its footer.
\<close>

definition formatResult :: "state \<Rightarrow> string \<Rightarrow> string \<Rightarrow> exec_result \<Rightarrow> string \<times> state" where
  "formatResult s now cmd r =
     (let (logId, s') = (if needsLog r
                         then (case storeLog s now cmd r of (i, t) \<Rightarrow> (Some i, t))
                         else (None, s));
          output = truncate_chars (join [NL] (truncate_lines (split_nl (display_output r))))
                   @ status_footer r logId
      in (if output \<noteq> [] then output else ''Command completed successfully'', s'))"

section \<open>Retrieval\<close>

text \<open>
  The arguments of \<open>get_log\<close> as the input schema names them: a string \<open>log_id\<close>, a
  string \<open>grep\<close>, and the line counts \<open>tail\<close> and \<open>head\<close>, taken as integers. A field
  that is absent is \<open>None\<close>; \<open>if (args.x)\<close> tests truthiness, which fails for an absent
  field, for the number 0 and for the empty string.
\<close>

record get_log_args =
  log_id :: string
  grep :: "string option"
  tail :: "int option"
  head :: "int option"

definition truthy_num :: "int option \<Rightarrow> bool" where
  "truthy_num a = (case a of None \<Rightarrow> False | Some n \<Rightarrow> n \<noteq> 0)"

definition truthy_str :: "string option \<Rightarrow> bool" where
  "truthy_str a = (case a of None \<Rightarrow> False | Some t \<Rightarrow> t \<noteq> [])"

text \<open>An \<open>Error\<close> thrown inside \<open>handleTool\<close>, with its message.\<close>

datatype error = Thrown string

text \<open>
  The grep filter of \<open>get_log\<close>. The regular-expression engine is outside the program:
  \<open>mkRegExp p\<close> stands for \<open>new RegExp(p, "i")\<close>, either the message of the syntax
  error it throws or the test of the compiled pattern on a line.
\<close>

definition apply_grep ::
    "(string \<Rightarrow> string + (string \<Rightarrow> bool)) \<Rightarrow> get_log_args \<Rightarrow> string \<Rightarrow> error + string" where
  "apply_grep mkRegExp args output =
     (if truthy_str (grep args)
      then (case mkRegExp (the (grep args)) of
              Inl msg \<Rightarrow> Inl (Thrown msg)
            | Inr test \<Rightarrow> Inr (join [NL] (filter test (split_nl output))))
      else Inr output)"

text \<open>The head and tail windows of \<open>get_log\<close>, on the array \<open>lines\<close>.\<close>

definition apply_head_tail :: "get_log_args \<Rightarrow> string list \<Rightarrow> string list" where
  "apply_head_tail args lines =
     (let lines1 = (if truthy_num (head args) then slice lines 0 (the (head args)) else lines)
      in if truthy_num (tail args) then slice_from lines1 (- the (tail args)) else lines1)"

text \<open>The case \<open>"get_log"\<close> of \<open>handleTool\<close>.\<close>

definition get_log ::
    "(string \<Rightarrow> string + (string \<Rightarrow> bool)) \<Rightarrow> state \<Rightarrow> get_log_args \<Rightarrow> error + string" where
  "get_log mkRegExp s args =
     (case map_get (logStore s) (log_id args) of
        None \<Rightarrow>
          Inr (''Log not found: '' @ log_id args @ [NL]
               @ ''Use nix_list_logs to see available logs.'')
      | Some entry \<Rightarrow>
          (case apply_grep mkRegExp args (stdout entry @ [NL] @ stderr entry) of
             Inl e \<Rightarrow> Inl e
           | Inr output \<Rightarrow>
               Inr (join [NL]
                 [''Command: nix '' @ command entry,
                  ''Exit code: '' @ show_int (exitCode entry),
                  ''Timestamp: '' @ timestamp entry,
                  [],
                  join [NL] (apply_head_tail args (split_nl output))])))"

text \<open>The header of a retrieved log, up to and including the blank line.\<close>

definition log_header :: "LogEntry \<Rightarrow> string" where
  "log_header entry =
     ''Command: nix '' @ command entry @ [NL]
     @ ''Exit code: '' @ show_int (exitCode entry) @ [NL]
     @ ''Timestamp: '' @ timestamp entry @ [NL]
     @ [NL]"

text \<open>The text \<open>get_log\<close> returns for an id that is not in the store.\<close>

definition not_found_message :: "string \<Rightarrow> string" where
  "not_found_message i = ''Log not found: '' @ i @ [NL] @ ''Use nix_list_logs to see available logs.''"

text \<open>
  \<open>a.localeCompare(b)\<close> on timestamps. Every timestamp in the store is an output of
  \<open>toISOString\<close>, of fixed width with digits at fixed places, where the collation order
  is the order of the code units; the model compares code units.
\<close>

definition localeCompare :: "string \<Rightarrow> string \<Rightarrow> int" where
  "localeCompare a b = (if a < b then - 1 else if a = b then 0 else 1)"

text \<open>
  \<open>Array.prototype.sort(cmp)\<close> is stable; with a consistent comparator its result is
  that of the stable insertion sort.
\<close>

fun insort_cmp :: "('a \<Rightarrow> 'a \<Rightarrow> int) \<Rightarrow> 'a \<Rightarrow> 'a list \<Rightarrow> 'a list" where
  "insort_cmp cmp x [] = [x]"
| "insort_cmp cmp x (y # ys) = (if cmp x y \<le> 0 then x # y # ys else y # insort_cmp cmp x ys)"

definition sort_cmp :: "('a \<Rightarrow> 'a \<Rightarrow> int) \<Rightarrow> 'a list \<Rightarrow> 'a list" where
  "sort_cmp cmp xs = foldr (insort_cmp cmp) xs []"

text \<open>The array \<open>logs\<close> of the case \<open>"list_logs"\<close>, and the text the case returns.\<close>

definition recent_logs :: "state \<Rightarrow> LogEntry list" where
  "recent_logs s =
     slice (sort_cmp (\<lambda>a b. localeCompare (timestamp b) (timestamp a)) (map snd (logStore s))) 0 20"

definition log_line :: "LogEntry \<Rightarrow> string" where
  "log_line log =
     ''['' @ id log @ ''] '' @ timestamp log @ '' - nix '' @ slice (command log) 0 50
     @ (if length (command log) > 50 then ''...'' else [])
     @ '' (exit: '' @ show_int (exitCode log) @ '')''"

definition list_logs :: "state \<Rightarrow> string" where
  "list_logs s =
     (let logs = recent_logs s
      in if length logs = 0 then ''No logs available.''
         else join [NL] (map log_line logs))"

text \<open>The handler of \<open>CallToolRequestSchema\<close>: a thrown error becomes an error result.\<close>

record tool_response =
  resp_text :: string
  isError :: bool

definition call_tool_response :: "error + string \<Rightarrow> tool_response" where
  "call_tool_response res =
     (case res of
        Inr result \<Rightarrow> \<lparr>resp_text = result, isError = False\<rparr>
      | Inl (Thrown message) \<Rightarrow> \<lparr>resp_text = ''Error: '' @ message, isError = True\<rparr>)"

section \<open>The process runner\<close>
















section \<open>Reading an id back\<close>

text \<open>The number a decimal rendering stands for; it recovers the counter from an id.\<close>

fun read_nat :: "nat \<Rightarrow> string \<Rightarrow> nat" where
  "read_nat a [] = a"
| "read_nat a (c # cs) = read_nat (10 * a + (of_char c - 48)) cs"

section \<open>The store after a run\<close>

text \<open>
  What the theorems say the store holds. \<open>store_inv\<close>: the keys are the ids of the
  last insertions, oldest first. \<open>issued_entry k q\<close>: the entry that insertion number
  \<open>k\<close> (counted from 0) creates from the request \<open>q\<close>. \<open>store_after qs\<close>: the entries of
  the last \<open>MAX_LOGS\<close> requests of \<open>qs\<close>, oldest first.
\<close>

definition store_inv :: "state \<Rightarrow> bool" where
  "store_inv s \<longleftrightarrow>
     length (logStore s) \<le> MAX_LOGS \<and> length (logStore s) \<le> logCounter s \<and>
     map fst (logStore s) =
       map mk_id [Suc (logCounter s) - length (logStore s) ..< Suc (logCounter s)]"

definition issued_entry :: "nat \<Rightarrow> store_req \<Rightarrow> LogEntry" where
  "issued_entry k q = (case q of (now, cmd, r) \<Rightarrow> log_entry (mk_id (Suc k)) now cmd r)"

definition store_after :: "store_req list \<Rightarrow> log_map" where
  "store_after qs =
     map (\<lambda>k. (mk_id (Suc k), issued_entry k (qs ! k)))
       [length qs - min (length qs) MAX_LOGS ..< length qs]"

section \<open>Lines and decimal renderings\<close>

lemma split_nl_nonempty: "split_nl s \<noteq> []"
  by (induction s) (auto split: list.splits)

lemma join_split_nl: "join [NL] (split_nl s) = s"
proof (induction s)
  case Nil
  show ?case by simp
next
  case (Cons c cs)
  show ?case
  proof (cases "split_nl cs")
    case Nil
    then show ?thesis using split_nl_nonempty by blast
  next
    case (Cons l ls)
    then show ?thesis using Cons.IH
      by (cases ls) auto
  qed
qed

lemma length_split_nl: "length (split_nl s) = Suc (length (filter (\<lambda>c. c = NL) s))"
  by (induction s) (auto split: list.splits simp: split_nl_nonempty)

lemma read_nat_append: "read_nat a (xs @ ys) = read_nat (read_nat a xs) ys"
  by (induction xs arbitrary: a) auto

lemma of_char_digit: "d < 10 \<Longrightarrow> of_char (digit_char d) = 48 + d"
  by (simp add: digit_char_def)

lemma read_show_nat: "read_nat 0 (show_nat n) = n"
proof (induction n rule: show_nat.induct)
  case (1 n)
  show ?case
  proof (cases "n < 10")
    case True
    then show ?thesis by (subst show_nat.simps) (simp add: of_char_digit)
  next
    case False
    then have "read_nat 0 (show_nat (n div 10)) = n div 10" using 1 by simp
    then show ?thesis using False
      by (subst show_nat.simps) (simp add: read_nat_append of_char_digit)
  qed
qed

lemma show_nat_inj: "show_nat m = show_nat n \<Longrightarrow> m = n"
  by (metis read_show_nat)

lemma mk_id_inj: "mk_id m = mk_id n \<longleftrightarrow> m = n"
  by (auto simp: mk_id_def dest: show_nat_inj)

section \<open>The map operations\<close>

lemma map_delete_first: "distinct (map fst (p # m)) \<Longrightarrow> map_delete (p # m) (fst p) = m"
  by (cases p) (force simp: map_delete_def filter_id_conv)

lemma map_set_fresh: "k \<notin> set (map fst m) \<Longrightarrow> map_set m k v = m @ [(k, v)]"
  by (simp add: map_set_def)

lemma map_get_map_set: "map_get (map_set m k v) k = Some v"
proof (cases "k \<in> set (map fst m)")
  case True
  then have "map_of (map (\<lambda>p. if fst p = k then (k, v) else p) m) k = Some v"
    by (induction m) auto
  then show ?thesis using True by (simp add: map_get_def map_set_def)
next
  case False
  then have "map_of m k = None" by (simp add: map_of_eq_None_iff)
  then show ?thesis using False by (simp add: map_get_def map_set_def map_add_def)
qed

section \<open>The invariant of the store\<close>

lemma store_inv_fresh: "store_inv s \<Longrightarrow> mk_id (Suc (logCounter s)) \<notin> set (map fst (logStore s))"
  by (auto simp: store_inv_def mk_id_inj)

lemma store_inv_distinct: "store_inv s \<Longrightarrow> distinct (map fst (logStore s))"
  by (auto simp: store_inv_def distinct_map inj_on_def mk_id_inj)

lemma storeLog_below:
  assumes "store_inv s" "length (logStore s) < MAX_LOGS"
  shows "storeLog s now cmd r = (mk_id (logCounter s + 1),
           \<lparr>logStore = logStore s @ [(mk_id (logCounter s + 1),
                          log_entry (mk_id (logCounter s + 1)) now cmd r)],
            logCounter = logCounter s + 1\<rparr>)"
  using assms store_inv_fresh[OF assms(1)]
  by (simp add: storeLog_def Let_def map_set_fresh)

lemma storeLog_full:
  assumes "store_inv s" "length (logStore s) = MAX_LOGS"
  shows "storeLog s now cmd r = (mk_id (logCounter s + 1),
           \<lparr>logStore = tl (logStore s) @ [(mk_id (logCounter s + 1),
                          log_entry (mk_id (logCounter s + 1)) now cmd r)],
            logCounter = logCounter s + 1\<rparr>)"
proof -
  obtain p m where pm: "logStore s = p # m"
    using assms(2) by (cases "logStore s") (auto simp: MAX_LOGS_def)
  have d: "distinct (map fst (p # m))" using store_inv_distinct[OF assms(1)] pm by simp
  have del: "map_delete (logStore s) (fst p) = m" using map_delete_first[OF d] pm by simp
  have "mk_id (Suc (logCounter s)) \<notin> set (map fst (logStore s))"
    using store_inv_fresh[OF assms(1)] .
  then have fr: "mk_id (Suc (logCounter s)) \<notin> set (map fst m)" using pm by auto
  show ?thesis using assms(2) pm del fr
    by (simp add: storeLog_def Let_def map_set_fresh)
qed

lemma store_inv_after: "store_inv \<lparr>logStore = store_after qs, logCounter = length qs\<rparr>"
proof -
  let ?a = "length qs - min (length qs) MAX_LOGS"
  have lo: "Suc (length qs) - min (length qs) MAX_LOGS = Suc ?a"
    by (simp add: Suc_diff_le)
  have "map mk_id [Suc ?a..<Suc (length qs)] = map mk_id (map Suc [?a..<length qs])"
    by (simp only: map_Suc_upt)
  then have "map mk_id [Suc ?a..<Suc (length qs)] = map (\<lambda>x. mk_id (Suc x)) [?a..<length qs]"
    by (simp add: comp_def)
  then show ?thesis using lo
    by (simp add: store_inv_def store_after_def comp_def del: upt_Suc)
qed

lemma run_storeLog_snoc:
  "run_storeLog s (qs @ [(now, cmd, r)]) =
     (fst (run_storeLog s qs) @ [fst (storeLog (snd (run_storeLog s qs)) now cmd r)],
      snd (storeLog (snd (run_storeLog s qs)) now cmd r))"
proof (induction qs arbitrary: s)
  case Nil
  show ?case by (simp add: case_prod_beta)
next
  case (Cons a qs)
  obtain now' cmd' r' where a: "a = (now', cmd', r')" by (cases a) auto
  show ?case unfolding a using Cons.IH[of "snd (storeLog s now' cmd' r')"]
    by (simp add: case_prod_beta)
qed

lemma store_after_snoc:
  "store_after (qs @ [q]) =
     (if length qs < MAX_LOGS then store_after qs else tl (store_after qs))
     @ [(mk_id (Suc (length qs)), issued_entry (length qs) q)]"
proof -
  let ?n = "length qs"
  let ?f = "\<lambda>k. (mk_id (Suc k), issued_entry k (qs ! k))"
  let ?g = "\<lambda>k. (mk_id (Suc k), issued_entry k ((qs @ [q]) ! k))"
  have cong: "map ?g [a..<?n] = map ?f [a..<?n]" for a
    by (rule map_cong) (auto simp: nth_append)
  show ?thesis
  proof (cases "?n < MAX_LOGS")
    case True
    then show ?thesis using cong[of 0]
      by (simp add: store_after_def)
  next
    case False
    then have ge: "MAX_LOGS \<le> ?n" by simp
    have lo: "Suc ?n - MAX_LOGS = Suc (?n - MAX_LOGS)" using ge by (simp add: Suc_diff_le)
    have "tl (store_after qs) = map ?f [Suc (?n - MAX_LOGS)..<?n]"
      using ge by (simp add: store_after_def min_def tl_upt flip: map_tl)
    moreover have "store_after (qs @ [q]) = map ?g [Suc (?n - MAX_LOGS)..<?n] @ [?g ?n]"
      using ge lo by (simp add: store_after_def min_def MAX_LOGS_def)
    ultimately show ?thesis using False cong[of "Suc (?n - MAX_LOGS)"]
      by simp
  qed
qed

lemma run_storeLog_init:
  "run_storeLog init_state qs =
     (map mk_id [1..<Suc (length qs)], \<lparr>logStore = store_after qs, logCounter = length qs\<rparr>)"
proof (induction qs rule: rev_induct)
  case Nil
  show ?case by (simp add: init_state_def store_after_def)
next
  case (snoc q qs)
  obtain now cmd r where q: "q = (now, cmd, r)" by (cases q) auto
  let ?s = "\<lparr>logStore = store_after qs, logCounter = length qs\<rparr>"
  have inv: "store_inv ?s" by (rule store_inv_after)
  have len: "length (logStore ?s) = min (length qs) MAX_LOGS"
    by (simp add: store_after_def)
  have step: "storeLog ?s now cmd r =
      (mk_id (Suc (length qs)),
       \<lparr>logStore = store_after (qs @ [q]), logCounter = Suc (length qs)\<rparr>)"
  proof (cases "length qs < MAX_LOGS")
    case True
    then have "length (logStore ?s) < MAX_LOGS" using len by simp
    from storeLog_below[OF inv this] show ?thesis using True q
      by (simp add: store_after_snoc issued_entry_def)
  next
    case False
    then have "length (logStore ?s) = MAX_LOGS" using len by simp
    from storeLog_full[OF inv this] show ?thesis using False q
      by (simp add: store_after_snoc issued_entry_def)
  qed
  show ?case
    unfolding q run_storeLog_snoc snoc.IH using step q
    by simp
qed

lemma map_get_store_after:
  "map_get (store_after qs) (mk_id (Suc k)) =
     (if k < length qs \<and> length qs - k \<le> MAX_LOGS then Some (issued_entry k (qs ! k)) else None)"
proof -
  let ?ks = "[length qs - min (length qs) MAX_LOGS ..< length qs]"
  let ?f = "\<lambda>k. issued_entry k (qs ! k)"
  have gen: "map_of (map (\<lambda>j. (mk_id (Suc j), ?f j)) ks) (mk_id (Suc k))
             = (if k \<in> set ks then Some (?f k) else None)" for ks
    by (induction ks) (auto simp: mk_id_inj)
  have "k \<in> set ?ks \<longleftrightarrow> k < length qs \<and> length qs - k \<le> MAX_LOGS"
    by (auto simp: min_def)
  then show ?thesis using gen[of ?ks]
    by (simp add: map_get_def store_after_def)
qed

section \<open>Capacity and eviction\<close>

text \<open>
  C1. After every sequence of \<open>storeLog\<close> calls from the start of the process the store
  holds at most \<open>MAX_LOGS\<close> entries, and its keys are the ids of the last insertions,
  oldest first. An insertion into a full store removes exactly the first entry, the one
  inserted longest ago, and appends the new one; an insertion below capacity only appends.
\<close>

theorem logStore_capacity_fifo:
  assumes "run_storeLog init_state qs = (ids, s)"
  shows "length (logStore s) \<le> MAX_LOGS
       \<and> map fst (logStore s) = map mk_id [Suc (length qs) - length (logStore s) ..< Suc (length qs)]
       \<and> (length (logStore s) = MAX_LOGS \<longrightarrow>
            logStore (snd (storeLog s now cmd r)) =
              tl (logStore s) @ [(mk_id (Suc (length qs)), log_entry (mk_id (Suc (length qs))) now cmd r)])
       \<and> (length (logStore s) < MAX_LOGS \<longrightarrow>
            logStore (snd (storeLog s now cmd r)) =
              logStore s @ [(mk_id (Suc (length qs)), log_entry (mk_id (Suc (length qs))) now cmd r)])"
proof -
  have s: "s = \<lparr>logStore = store_after qs, logCounter = length qs\<rparr>"
    using assms by (simp add: run_storeLog_init)
  have inv: "store_inv s" unfolding s by (rule store_inv_after)
  have c: "logCounter s = length qs" by (simp add: s)
  have 1: "length (logStore s) \<le> MAX_LOGS" using inv by (simp add: store_inv_def)
  have 2: "map fst (logStore s) = map mk_id [Suc (length qs) - length (logStore s) ..< Suc (length qs)]"
    using inv c by (simp add: store_inv_def)
  have 3: "logStore (snd (storeLog s now cmd r)) =
              tl (logStore s) @ [(mk_id (Suc (length qs)), log_entry (mk_id (Suc (length qs))) now cmd r)]"
    if "length (logStore s) = MAX_LOGS"
    using storeLog_full[OF inv that, of now cmd r] c by simp
  have 4: "logStore (snd (storeLog s now cmd r)) =
              logStore s @ [(mk_id (Suc (length qs)), log_entry (mk_id (Suc (length qs))) now cmd r)]"
    if "length (logStore s) < MAX_LOGS"
    using storeLog_below[OF inv that, of now cmd r] c by simp
  show ?thesis using 1 2 3 4 by blast
qed

theorem logStore_capacity_fifo_witness:
  "length (logStore (snd (run_storeLog init_state
       (replicate 100 (''t'', ''build'', \<lparr>r_stdout = ''o'', r_stderr = ''e'', r_exitCode = 0\<rparr>))))) = MAX_LOGS
   \<and> logStore (snd (storeLog (snd (run_storeLog init_state
       (replicate 100 (''t'', ''build'', \<lparr>r_stdout = ''o'', r_stderr = ''e'', r_exitCode = 0\<rparr>))))
        ''u'' ''check'' \<lparr>r_stdout = [], r_stderr = [], r_exitCode = 1\<rparr>))
     = tl (logStore (snd (run_storeLog init_state
       (replicate 100 (''t'', ''build'', \<lparr>r_stdout = ''o'', r_stderr = ''e'', r_exitCode = 0\<rparr>)))))
       @ [(''log-101'', \<lparr>id = ''log-101'', command = ''check'', timestamp = ''u'',
             stdout = [], stderr = [], exitCode = 1\<rparr>)]"
proof -
  let ?qs = "replicate 100 (''t'', ''build'', \<lparr>r_stdout = ''o'', r_stderr = ''e'', r_exitCode = 0\<rparr>)"
  let ?s = "snd (run_storeLog init_state ?qs)"
  have run: "run_storeLog init_state ?qs = (fst (run_storeLog init_state ?qs), ?s)"
    by simp
  have full: "length (logStore ?s) = MAX_LOGS"
    by (simp add: run_storeLog_init store_after_def MAX_LOGS_def)
  have i: "mk_id (Suc (length ?qs)) = ''log-101''"
    by code_simp
  show ?thesis
    using logStore_capacity_fifo[OF run, of "''u''" "''check''" "\<lparr>r_stdout = [], r_stderr = [], r_exitCode = 1\<rparr>"] full
    unfolding i by (simp add: log_entry_def)
qed

lemma get_log_absent:
  "map_get (logStore s) (log_id args) = None \<Longrightarrow> get_log rx s args = Inr (not_found_message (log_id args))"
  by (simp add: get_log_def not_found_message_def)

section \<open>Identifiers\<close>

text \<open>
  C3. In a run of \<open>storeLog\<close> calls from the start of the process, call number \<open>k\<close>
  (counted from 0) returns the id \<open>log-(k+1)\<close>: the numbers in the ids increase strictly
  and no id is issued twice. At the end of the run the id of every call either still
  maps to the entry that call created, or, once more than \<open>MAX_LOGS\<close> later insertions
  have evicted it, maps to nothing, and \<open>get_log\<close> answers with the not-found text; it
  never maps to an entry of a later call.
\<close>

theorem log_ids_increasing_never_reused:
  assumes "run_storeLog init_state qs = (ids, s)"
  shows "ids = map mk_id [1..<Suc (length qs)] \<and> distinct ids \<and> logCounter s = length qs
       \<and> (\<forall>k<length qs.
            read_nat 0 (drop 4 (ids ! k)) = Suc k
          \<and> (length qs - k \<le> MAX_LOGS \<longrightarrow>
               map_get (logStore s) (ids ! k) = Some (issued_entry k (qs ! k)))
          \<and> (MAX_LOGS < length qs - k \<longrightarrow>
               map_get (logStore s) (ids ! k) = None
             \<and> get_log rx s \<lparr>log_id = ids ! k, grep = g, tail = t, head = h\<rparr>
                 = Inr (not_found_message (ids ! k))))"
proof -
  have ids: "ids = map mk_id [1..<Suc (length qs)]"
    and s: "s = \<lparr>logStore = store_after qs, logCounter = length qs\<rparr>"
    using assms by (simp_all add: run_storeLog_init)
  have d: "distinct ids"
    unfolding ids by (simp add: distinct_map inj_on_def mk_id_inj del: upt_Suc)
  have nth: "ids ! k = mk_id (Suc k)" if "k < length qs" for k
    using that unfolding ids by (simp del: upt_Suc)
  have num: "read_nat 0 (drop 4 (ids ! k)) = Suc k" if "k < length qs" for k
    using nth[OF that] by (simp add: mk_id_def read_show_nat)
  have present: "map_get (logStore s) (ids ! k) = Some (issued_entry k (qs ! k))"
    if "k < length qs" "length qs - k \<le> MAX_LOGS" for k
    using that nth[OF that(1)] by (simp add: s map_get_store_after)
  have evicted: "map_get (logStore s) (ids ! k) = None" if "k < length qs" "MAX_LOGS < length qs - k" for k
    using that nth[OF that(1)] by (simp add: s map_get_store_after)
  have nf: "get_log rx s \<lparr>log_id = ids ! k, grep = g, tail = t, head = h\<rparr>
                 = Inr (not_found_message (ids ! k))" if "k < length qs" "MAX_LOGS < length qs - k" for k
    using evicted[OF that] get_log_absent[of s "\<lparr>log_id = ids ! k, grep = g, tail = t, head = h\<rparr>" rx]
    by simp
  show ?thesis using ids d s num present evicted nf by simp
qed

theorem log_ids_increasing_never_reused_witness:
  "get_log (\<lambda>p. Inl ''unused'')
     (snd (run_storeLog init_state
        (replicate 101 (''t'', ''build'', \<lparr>r_stdout = ''o'', r_stderr = ''e'', r_exitCode = 0\<rparr>))))
     \<lparr>log_id = ''log-1'', grep = None, tail = None, head = None\<rparr>
   = Inr ''Log not found: log-1\<newline>Use nix_list_logs to see available logs.''
   \<and> map_get (logStore (snd (run_storeLog init_state
        (replicate 101 (''t'', ''build'', \<lparr>r_stdout = ''o'', r_stderr = ''e'', r_exitCode = 0\<rparr>)))))
        ''log-2''
     = Some \<lparr>id = ''log-2'', command = ''build'', timestamp = ''t'',
             stdout = ''o'', stderr = ''e'', exitCode = 0\<rparr>"
proof -
  let ?qs = "replicate 101 (''t'', ''build'', \<lparr>r_stdout = ''o'', r_stderr = ''e'', r_exitCode = 0\<rparr>)"
  let ?s = "snd (run_storeLog init_state ?qs)"
  let ?ids = "fst (run_storeLog init_state ?qs)"
  have run: "run_storeLog init_state ?qs = (?ids, ?s)" by simp
  note th = log_ids_increasing_never_reused[OF run, of "\<lambda>p. Inl ''unused''" None None None]
  have ids: "?ids = map mk_id [1..<Suc (length ?qs)]" using th by blast
  have i0: "?ids ! 0 = ''log-1''" unfolding ids by code_simp
  have i1: "?ids ! 1 = ''log-2''" unfolding ids by code_simp
  have k0: "(0::nat) < length ?qs \<and> MAX_LOGS < length ?qs - 0" by (simp add: MAX_LOGS_def)
  have k1: "(1::nat) < length ?qs \<and> length ?qs - 1 \<le> MAX_LOGS" by (simp add: MAX_LOGS_def)
  have a: "get_log (\<lambda>p. Inl ''unused'') ?s \<lparr>log_id = ?ids ! 0, grep = None, tail = None, head = None\<rparr>
           = Inr (not_found_message (?ids ! 0))"
    using th k0 by blast
  have b: "map_get (logStore ?s) (?ids ! 1) = Some (issued_entry 1 (?qs ! 1))"
    using th k1 by blast
  have e: "issued_entry 1 (?qs ! 1) = \<lparr>id = ''log-2'', command = ''build'', timestamp = ''t'',
             stdout = ''o'', stderr = ''e'', exitCode = 0\<rparr>"
    by code_simp
  show ?thesis using a b unfolding i0 i1 e
    by (simp add: not_found_message_def NL_def)
qed

lemma includes_str_append: "includes_str b sub \<Longrightarrow> includes_str (a @ b) sub"
  by (induction a) auto

lemma get_log_present:
  assumes "map_get (logStore s) (log_id args) = Some e"
      and "apply_grep rx args (stdout e @ [NL] @ stderr e) = Inr output"
  shows "get_log rx s args = Inr (log_header e @ join [NL] (apply_head_tail args (split_nl output)))"
  using assms by (simp add: get_log_def log_header_def)

lemma slice_take: "0 \<le> n \<Longrightarrow> slice xs 0 n = take (nat n) xs"
  by (auto simp: slice_def Let_def min_def)

lemma slice_from_last: "0 < n \<Longrightarrow> slice_from xs (- n) = drop (length xs - nat n) xs"
proof -
  assume n: "0 < n"
  have "nat (int (length xs) - n) = length xs - nat n" using n by linarith
  then show ?thesis using n
    by (auto simp: slice_from_def slice_def Let_def max_def)
qed

section \<open>Retrieval by id\<close>

text \<open>
  C7. For an id that is not in the store, \<open>get_log\<close> returns normally, whatever the
  filters are: the text says the log was not found and names \<open>nix_list_logs\<close> as the
  way to see the available logs, and the response built from it is not an error result.
\<close>

theorem get_log_not_found_guidance:
  assumes "map_get (logStore s) (log_id args) = None"
  shows "get_log rx s args = Inr (not_found_message (log_id args))
       \<and> call_tool_response (get_log rx s args)
           = \<lparr>resp_text = not_found_message (log_id args), isError = False\<rparr>
       \<and> includes_str (not_found_message (log_id args)) ''nix_list_logs''"
proof -
  have "includes_str ''Use nix_list_logs to see available logs.'' ''nix_list_logs''"
    by (simp add: startsWith_def)
  then have "includes_str (not_found_message (log_id args)) ''nix_list_logs''"
    unfolding not_found_message_def
    by (intro includes_str_append)
  then show ?thesis using get_log_absent[OF assms, of rx]
    by (simp add: call_tool_response_def)
qed

theorem get_log_not_found_guidance_witness:
  "call_tool_response
     (get_log (\<lambda>p. Inl ''Invalid regular expression'') init_state
        \<lparr>log_id = ''log-7'', grep = Some ''('', tail = None, head = Some 3\<rparr>)
   = \<lparr>resp_text = ''Log not found: log-7\<newline>Use nix_list_logs to see available logs.'',
      isError = False\<rparr>"
proof -
  have "map_get (logStore init_state)
          (log_id \<lparr>log_id = ''log-7'', grep = Some ''('', tail = None, head = Some 3\<rparr>) = None"
    by (simp add: map_get_def init_state_def)
  from get_log_not_found_guidance[OF this, of "\<lambda>p. Inl ''Invalid regular expression''"]
  have "call_tool_response
     (get_log (\<lambda>p. Inl ''Invalid regular expression'') init_state
        \<lparr>log_id = ''log-7'', grep = Some ''('', tail = None, head = Some 3\<rparr>)
   = \<lparr>resp_text = not_found_message ''log-7'', isError = False\<rparr>"
    by (simp add: call_tool_response_def)
  then show ?thesis by (simp add: not_found_message_def NL_def)
qed

lemma apply_head_tail_head0:
  "apply_head_tail (args\<lparr>head := Some 0\<rparr>) ls = apply_head_tail (args\<lparr>head := None\<rparr>) ls"
  by (simp add: apply_head_tail_def truthy_num_def)

lemma apply_head_tail_tail0:
  "apply_head_tail (args\<lparr>tail := Some 0\<rparr>) ls = apply_head_tail (args\<lparr>tail := None\<rparr>) ls"
  by (simp add: apply_head_tail_def truthy_num_def)

lemma apply_head_tail_grep:
  "apply_head_tail (args\<lparr>grep := g\<rparr>) ls = apply_head_tail args ls"
  by (simp add: apply_head_tail_def)

lemma apply_grep_head: "apply_grep rx (args\<lparr>head := h\<rparr>) out = apply_grep rx args out"
  by (simp add: apply_grep_def)

lemma apply_grep_tail: "apply_grep rx (args\<lparr>tail := t\<rparr>) out = apply_grep rx args out"
  by (simp add: apply_grep_def)

lemma apply_grep_empty:
  "apply_grep rx (args\<lparr>grep := Some []\<rparr>) out = Inr out"
  "apply_grep rx (args\<lparr>grep := None\<rparr>) out = Inr out"
  by (simp_all add: apply_grep_def truthy_str_def)

text \<open>
  C10. The filters of \<open>get_log\<close> are tested for truthiness: \<open>head = 0\<close>, \<open>tail = 0\<close> and
  \<open>grep = ""\<close> each give the result of the call without that argument, and with all
  three the whole body of a stored log is returned after the header.
\<close>

theorem get_log_falsy_filters_absent:
  "get_log rx s (args\<lparr>head := Some 0\<rparr>) = get_log rx s (args\<lparr>head := None\<rparr>)
 \<and> get_log rx s (args\<lparr>tail := Some 0\<rparr>) = get_log rx s (args\<lparr>tail := None\<rparr>)
 \<and> get_log rx s (args\<lparr>grep := Some []\<rparr>) = get_log rx s (args\<lparr>grep := None\<rparr>)
 \<and> (map_get (logStore s) i = Some e \<longrightarrow>
      get_log rx s \<lparr>log_id = i, grep = Some [], tail = Some 0, head = Some 0\<rparr>
        = Inr (log_header e @ stdout e @ [NL] @ stderr e))"
proof -
  have body: "get_log rx s \<lparr>log_id = i, grep = Some [], tail = Some 0, head = Some 0\<rparr>
        = Inr (log_header e @ stdout e @ [NL] @ stderr e)" if "map_get (logStore s) i = Some e"
    using that
    by (simp add: get_log_def apply_grep_def apply_head_tail_def truthy_num_def truthy_str_def
        log_header_def join_split_nl)
  have 1: "get_log rx s (args\<lparr>head := Some 0\<rparr>) = get_log rx s (args\<lparr>head := None\<rparr>)"
    by (simp add: get_log_def apply_grep_head apply_head_tail_head0
        cong: option.case_cong sum.case_cong)
  have 2: "get_log rx s (args\<lparr>tail := Some 0\<rparr>) = get_log rx s (args\<lparr>tail := None\<rparr>)"
    by (simp add: get_log_def apply_grep_tail apply_head_tail_tail0
        cong: option.case_cong sum.case_cong)
  have 3: "get_log rx s (args\<lparr>grep := Some []\<rparr>) = get_log rx s (args\<lparr>grep := None\<rparr>)"
    by (simp add: get_log_def apply_grep_empty apply_head_tail_grep
        cong: option.case_cong sum.case_cong)
  show ?thesis using 1 2 3 body by blast
qed

theorem get_log_falsy_filters_absent_witness:
  "get_log (\<lambda>p. Inr (\<lambda>line. False))
     \<lparr>logStore = [(''log-1'', \<lparr>id = ''log-1'', command = ''build'', timestamp = ''t'',
                     stdout = ''a\<newline>b'', stderr = ''c'', exitCode = 0\<rparr>)], logCounter = 1\<rparr>
     \<lparr>log_id = ''log-1'', grep = Some [], tail = Some 0, head = Some 0\<rparr>
   = Inr ''Command: nix build\<newline>Exit code: 0\<newline>Timestamp: t\<newline>\<newline>a\<newline>b\<newline>c''"
proof -
  let ?e = "\<lparr>id = ''log-1'', command = ''build'', timestamp = ''t'',
                     stdout = ''a\<newline>b'', stderr = ''c'', exitCode = 0\<rparr>"
  let ?s = "\<lparr>logStore = [(''log-1'', ?e)], logCounter = 1\<rparr>"
  have f: "map_get (logStore ?s) ''log-1'' = Some ?e" by (simp add: map_get_def)
  have h: "log_header ?e = ''Command: nix build\<newline>Exit code: 0\<newline>Timestamp: t\<newline>\<newline>''"
    by code_simp
  show ?thesis
    using get_log_falsy_filters_absent[of "\<lambda>p. Inr (\<lambda>line. False)" ?s "\<lparr>log_id = [], grep = None, tail = None, head = None\<rparr>" "''log-1''" ?e] f
    unfolding h by (simp add: NL_def)
qed

lemma storeLog_fst: "fst (storeLog s now cmd r) = mk_id (logCounter s + 1)"
  by (simp add: storeLog_def Let_def)

lemma storeLog_counter: "logCounter (snd (storeLog s now cmd r)) = logCounter s + 1"
  by (simp add: storeLog_def Let_def)

lemma storeLog_get:
  "map_get (logStore (snd (storeLog s now cmd r))) (mk_id (logCounter s + 1))
     = Some (log_entry (mk_id (logCounter s + 1)) now cmd r)"
  by (simp add: storeLog_def Let_def map_get_map_set)

lemma formatResult_state:
  "snd (formatResult s now cmd r) = (if needsLog r then snd (storeLog s now cmd r) else s)"
  by (simp add: formatResult_def Let_def case_prod_beta)

lemma formatResult_text_archived:
  assumes "needsLog r"
  shows "fst (formatResult s now cmd r) =
     truncate_chars (join [NL] (truncate_lines (split_nl (display_output r))))
     @ status_footer r (Some (mk_id (logCounter s + 1)))"
proof -
  have "status_footer r (Some (mk_id (logCounter s + 1))) \<noteq> []"
    by (simp add: status_footer_def Let_def)
  then show ?thesis using assms storeLog_fst[of s now cmd r]
    by (simp add: formatResult_def Let_def case_prod_beta)
qed

lemma status_footer_hint:
  "\<exists>pre. status_footer r (Some i) =
     pre @ ''Full log: use nix_get_log with id='' @ [CHR 0x22] @ i @ [CHR 0x22] @ '']''"
proof (cases "r_exitCode r = 0")
  case True
  then have "status_footer r (Some i) =
     ([NL, NL] @ ''['') @ ''Full log: use nix_get_log with id='' @ [CHR 0x22] @ i @ [CHR 0x22] @ '']''"
    by (simp add: status_footer_def)
  then show ?thesis by blast
next
  case False
  then have "status_footer r (Some i) =
     ([NL, NL] @ ''['' @ ''Exit code: '' @ show_int (r_exitCode r) @ '' | '')
      @ ''Full log: use nix_get_log with id='' @ [CHR 0x22] @ i @ [CHR 0x22] @ '']''"
    by (simp add: status_footer_def)
  then show ?thesis by blast
qed

text \<open>
  C4. When \<open>formatResult\<close> archives a result, the display ends with the hint that
  carries the new id, and \<open>get_log\<close> with that id and no filter returns the header
  followed by \<open>stdout + "\n" + stderr\<close> of the result, whatever the display kept.
\<close>

theorem archived_log_round_trip:
  assumes "needsLog r"
  shows "get_log rx (snd (formatResult s now cmd r))
           \<lparr>log_id = mk_id (logCounter s + 1), grep = None, tail = None, head = None\<rparr>
         = Inr (''Command: nix '' @ cmd @ [NL] @ ''Exit code: '' @ show_int (r_exitCode r) @ [NL]
                @ ''Timestamp: '' @ now @ [NL] @ [NL]
                @ r_stdout r @ [NL] @ r_stderr r)
       \<and> (\<exists>pre. fst (formatResult s now cmd r) =
             pre @ ''Full log: use nix_get_log with id='' @ [CHR 0x22]
                 @ mk_id (logCounter s + 1) @ [CHR 0x22] @ '']'')"
proof -
  let ?i = "mk_id (logCounter s + 1)"
  let ?args = "\<lparr>log_id = ?i, grep = None, tail = None, head = None\<rparr>"
  let ?e = "log_entry ?i now cmd r"
  have st: "snd (formatResult s now cmd r) = snd (storeLog s now cmd r)"
    using assms by (simp add: formatResult_state)
  have g: "map_get (logStore (snd (formatResult s now cmd r))) (log_id ?args) = Some ?e"
    unfolding st using storeLog_get[of s now cmd r] by simp
  have gr: "apply_grep rx ?args (stdout ?e @ [NL] @ stderr ?e) = Inr (stdout ?e @ [NL] @ stderr ?e)"
    by (simp add: apply_grep_def truthy_str_def)
  have ht: "apply_head_tail \<lparr>log_id = i, grep = None, tail = None, head = None\<rparr> ls = ls" for i ls
    by (simp add: apply_head_tail_def truthy_num_def)
  have 1: "get_log rx (snd (formatResult s now cmd r)) ?args
         = Inr (log_header ?e @ stdout ?e @ [NL] @ stderr ?e)"
    using get_log_present[OF g gr] by (simp add: ht join_split_nl)
  obtain pre0 where "status_footer r (Some ?i) =
       pre0 @ ''Full log: use nix_get_log with id='' @ [CHR 0x22] @ ?i @ [CHR 0x22] @ '']''"
    using status_footer_hint by blast
  then have "fst (formatResult s now cmd r) =
      (truncate_chars (join [NL] (truncate_lines (split_nl (display_output r)))) @ pre0)
       @ ''Full log: use nix_get_log with id='' @ [CHR 0x22] @ ?i @ [CHR 0x22] @ '']''"
    using formatResult_text_archived[OF assms, of s now cmd] by simp
  then have 2: "\<exists>pre. fst (formatResult s now cmd r) =
             pre @ ''Full log: use nix_get_log with id='' @ [CHR 0x22] @ ?i @ [CHR 0x22] @ '']''"
    by blast
  show ?thesis using 1 2 by (simp add: log_header_def log_entry_def)
qed

theorem archived_log_round_trip_witness:
  "get_log (\<lambda>p. Inl ''unused'')
     (snd (formatResult init_state ''t'' ''build''
        \<lparr>r_stdout = replicate 60 NL, r_stderr = ''warning: x'', r_exitCode = 0\<rparr>))
     \<lparr>log_id = ''log-1'', grep = None, tail = None, head = None\<rparr>
   = Inr (''Command: nix build\<newline>Exit code: 0\<newline>Timestamp: t\<newline>\<newline>''
          @ replicate 60 NL @ [NL] @ ''warning: x'')"
proof -
  let ?r = "\<lparr>r_stdout = replicate 60 NL, r_stderr = ''warning: x'', r_exitCode = 0\<rparr>"
  have n: "needsLog ?r"
    by (simp add: needsLog_def length_split_nl MAX_OUTPUT_LINES_def)
  have i: "mk_id (logCounter init_state + 1) = ''log-1''" by code_simp
  have z: "show_int 0 = ''0''" by code_simp
  show ?thesis
    using archived_log_round_trip[OF n, of "\<lambda>p. Inl ''unused''" init_state "''t''" "''build''"]
    unfolding i by (simp add: z NL_def)
qed

lemma head_then_tail_positive:
  assumes "0 < h" and "0 < t"
  shows "apply_head_tail \<lparr>log_id = i, grep = g, tail = Some t, head = Some h\<rparr> lines
           = drop (length (take (nat h) lines) - nat t) (take (nat h) lines)
       \<and> (map_get (logStore s) i = Some e \<longrightarrow>
            get_log rx s \<lparr>log_id = i, grep = None, tail = Some t, head = Some h\<rparr>
              = Inr (log_header e @ join [NL]
                  (drop (length (take (nat h) (split_nl (stdout e @ [NL] @ stderr e))) - nat t)
                     (take (nat h) (split_nl (stdout e @ [NL] @ stderr e))))))"
proof -
  have w: "apply_head_tail \<lparr>log_id = i, grep = g', tail = Some t, head = Some h\<rparr> ls
           = drop (length (take (nat h) ls) - nat t) (take (nat h) ls)" for g' ls
    using assms
    by (simp add: apply_head_tail_def truthy_num_def slice_take slice_from_last)
  have "get_log rx s \<lparr>log_id = i, grep = None, tail = Some t, head = Some h\<rparr>
              = Inr (log_header e @ join [NL]
                  (drop (length (take (nat h) (split_nl (stdout e @ [NL] @ stderr e))) - nat t)
                     (take (nat h) (split_nl (stdout e @ [NL] @ stderr e)))))"
    if f: "map_get (logStore s) i = Some e"
  proof -
    let ?args = "\<lparr>log_id = i, grep = None, tail = Some t, head = Some h\<rparr>"
    have g: "map_get (logStore s) (log_id ?args) = Some e" using f by simp
    have gr: "apply_grep rx ?args (stdout e @ [NL] @ stderr e) = Inr (stdout e @ [NL] @ stderr e)"
      by (simp add: apply_grep_def truthy_str_def)
    show ?thesis using get_log_present[OF g gr] by (simp only: w)
  qed
  then show ?thesis using w by blast
qed

text \<open>
  C5. When \<open>head = h\<close> and \<open>tail = t\<close> are both given (and not 0), \<open>get_log\<close> applies
  the head window first and the tail window to what it leaves. For positive \<open>h\<close> and
  \<open>t\<close> that is: the first \<open>h\<close> lines, and then the last \<open>t\<close> of those. For a body of the
  lines 1 to 20 with \<open>head = 10\<close> and \<open>tail = 5\<close> the lines are 6 to 10.
\<close>

theorem get_log_head_then_tail:
  "(h \<noteq> 0 \<and> t \<noteq> 0 \<longrightarrow>
      apply_head_tail \<lparr>log_id = i, grep = g, tail = Some t, head = Some h\<rparr> lines
        = slice_from (slice lines 0 h) (- t))
 \<and> (0 < h \<and> 0 < t \<longrightarrow>
      apply_head_tail \<lparr>log_id = i, grep = g, tail = Some t, head = Some h\<rparr> lines
        = drop (length (take (nat h) lines) - nat t) (take (nat h) lines)
    \<and> (map_get (logStore s) i = Some e \<longrightarrow>
         get_log rx s \<lparr>log_id = i, grep = None, tail = Some t, head = Some h\<rparr>
           = Inr (log_header e @ join [NL]
               (drop (length (take (nat h) (split_nl (stdout e @ [NL] @ stderr e))) - nat t)
                  (take (nat h) (split_nl (stdout e @ [NL] @ stderr e)))))))"
proof -
  have order: "apply_head_tail \<lparr>log_id = i, grep = g, tail = Some t, head = Some h\<rparr> lines
        = slice_from (slice lines 0 h) (- t)" if "h \<noteq> 0" "t \<noteq> 0"
    using that by (simp add: apply_head_tail_def truthy_num_def)
  show ?thesis
    using order head_then_tail_positive[of h t i g lines s e rx] by blast
qed

theorem get_log_head_then_tail_witness:
  "get_log (\<lambda>p. Inl ''unused'')
     \<lparr>logStore = [(''log-1'', \<lparr>id = ''log-1'', command = ''build'', timestamp = ''t'',
          stdout = ''1\<newline>2\<newline>3\<newline>4\<newline>5\<newline>6\<newline>7\<newline>8\<newline>9\<newline>10'',
          stderr = ''11\<newline>12\<newline>13\<newline>14\<newline>15\<newline>16\<newline>17\<newline>18\<newline>19\<newline>20'',
          exitCode = 0\<rparr>)], logCounter = 1\<rparr>
     \<lparr>log_id = ''log-1'', grep = None, tail = Some 5, head = Some 10\<rparr>
   = Inr ''Command: nix build\<newline>Exit code: 0\<newline>Timestamp: t\<newline>\<newline>6\<newline>7\<newline>8\<newline>9\<newline>10''"
proof -
  let ?e = "\<lparr>id = ''log-1'', command = ''build'', timestamp = ''t'',
          stdout = ''1\<newline>2\<newline>3\<newline>4\<newline>5\<newline>6\<newline>7\<newline>8\<newline>9\<newline>10'',
          stderr = ''11\<newline>12\<newline>13\<newline>14\<newline>15\<newline>16\<newline>17\<newline>18\<newline>19\<newline>20'',
          exitCode = 0\<rparr>"
  let ?s = "\<lparr>logStore = [(''log-1'', ?e)], logCounter = 1\<rparr>"
  have ht: "(0::int) < 10 \<and> (0::int) < 5" by simp
  have f: "map_get (logStore ?s) ''log-1'' = Some ?e" by (simp add: map_get_def)
  have v: "log_header ?e @ join [NL]
                  (drop (length (take (nat 10) (split_nl (stdout ?e @ [NL] @ stderr ?e))) - nat 5)
                     (take (nat 10) (split_nl (stdout ?e @ [NL] @ stderr ?e))))
      = ''Command: nix build\<newline>Exit code: 0\<newline>Timestamp: t\<newline>\<newline>6\<newline>7\<newline>8\<newline>9\<newline>10''"
    by code_simp
  show ?thesis
    using get_log_head_then_tail[of 10 5 "''log-1''" None "[]" ?s ?e "\<lambda>p. Inl ''unused''"] ht f
    unfolding v by blast
qed

section \<open>The archiving trigger\<close>

lemma storeLog_changes: "snd (storeLog s now cmd r) \<noteq> s"
proof
  assume "snd (storeLog s now cmd r) = s"
  then have "logCounter (snd (storeLog s now cmd r)) = logCounter s" by simp
  then show False by (simp add: storeLog_counter)
qed

text \<open>
  C2. \<open>formatResult\<close> changes the store exactly when the unfiltered \<open>stdout + stderr\<close>
  has more than 4000 characters or more than 50 lines, and the change is the one
  \<open>storeLog\<close> call that files the result under the next id. A combined output of exactly
  4000 characters and at most 50 lines is not archived; one of 4001 characters is.
\<close>

theorem archive_trigger_exact:
  "(snd (formatResult s now cmd r) \<noteq> s \<longleftrightarrow>
      length (r_stdout r @ r_stderr r) > 4000 \<or> length (split_nl (r_stdout r @ r_stderr r)) > 50)
 \<and> (snd (formatResult s now cmd r) \<noteq> s \<longrightarrow>
      snd (formatResult s now cmd r) = snd (storeLog s now cmd r)
    \<and> map_get (logStore (snd (formatResult s now cmd r))) (mk_id (logCounter s + 1))
        = Some (log_entry (mk_id (logCounter s + 1)) now cmd r))
 \<and> (length (r_stdout r @ r_stderr r) = 4000 \<and> length (split_nl (r_stdout r @ r_stderr r)) \<le> 50
      \<longrightarrow> snd (formatResult s now cmd r) = s)
 \<and> (length (r_stdout r @ r_stderr r) = 4000 + 1
      \<longrightarrow> snd (formatResult s now cmd r) \<noteq> s)"
proof -
  have n: "needsLog r \<longleftrightarrow>
      length (r_stdout r @ r_stderr r) > 4000 \<or> length (split_nl (r_stdout r @ r_stderr r)) > 50"
    by (simp add: needsLog_def Let_def MAX_OUTPUT_CHARS_def MAX_OUTPUT_LINES_def)
  have a: "snd (formatResult s now cmd r) \<noteq> s \<longleftrightarrow> needsLog r"
    using storeLog_changes[of s now cmd r] by (simp add: formatResult_state)
  have b: "snd (formatResult s now cmd r) = snd (storeLog s now cmd r)" if "needsLog r"
    using that by (simp add: formatResult_state)
  have c: "map_get (logStore (snd (formatResult s now cmd r))) (mk_id (logCounter s + 1))
        = Some (log_entry (mk_id (logCounter s + 1)) now cmd r)" if "needsLog r"
    unfolding b[OF that] by (rule storeLog_get)
  show ?thesis using n a b c by auto
qed

theorem archive_trigger_exact_witness:
  "snd (formatResult init_state ''t'' ''build''
      \<lparr>r_stdout = replicate 3000 (CHR ''a''), r_stderr = replicate 1000 (CHR ''b''), r_exitCode = 0\<rparr>)
     = init_state
 \<and> snd (formatResult init_state ''t'' ''build''
      \<lparr>r_stdout = replicate 3000 (CHR ''a''), r_stderr = replicate 1001 (CHR ''b''), r_exitCode = 0\<rparr>)
     \<noteq> init_state
 \<and> map_get (logStore (snd (formatResult init_state ''t'' ''build''
      \<lparr>r_stdout = replicate 3000 (CHR ''a''), r_stderr = replicate 1001 (CHR ''b''), r_exitCode = 0\<rparr>)))
      ''log-1''
     = Some \<lparr>id = ''log-1'', command = ''build'', timestamp = ''t'',
        stdout = replicate 3000 (CHR ''a''), stderr = replicate 1001 (CHR ''b''), exitCode = 0\<rparr>"
proof -
  let ?r = "\<lparr>r_stdout = replicate 3000 (CHR ''a''), r_stderr = replicate 1000 (CHR ''b''), r_exitCode = 0\<rparr>"
  let ?r' = "\<lparr>r_stdout = replicate 3000 (CHR ''a''), r_stderr = replicate 1001 (CHR ''b''), r_exitCode = 0\<rparr>"
  have l: "length (r_stdout ?r @ r_stderr ?r) = 4000" by simp
  have k: "length (split_nl (r_stdout ?r @ r_stderr ?r)) \<le> 50"
    by (simp add: length_split_nl NL_def)
  have l': "length (r_stdout ?r' @ r_stderr ?r') = 4000 + 1" by simp
  have i: "mk_id (logCounter init_state + 1) = ''log-1''" by code_simp
  have 1: "snd (formatResult init_state ''t'' ''build'' ?r) = init_state"
    using archive_trigger_exact[of init_state "''t''" "''build''" ?r] l k by blast
  have 2: "snd (formatResult init_state ''t'' ''build'' ?r') \<noteq> init_state"
    using archive_trigger_exact[of init_state "''t''" "''build''" ?r'] l' by blast
  have 3: "map_get (logStore (snd (formatResult init_state ''t'' ''build'' ?r'))) (mk_id (logCounter init_state + 1))
        = Some (log_entry (mk_id (logCounter init_state + 1)) ''t'' ''build'' ?r')"
    using archive_trigger_exact[of init_state "''t''" "''build''" ?r'] 2 by blast
  show ?thesis using 1 2 3 unfolding i by (simp add: log_entry_def)
qed

section \<open>The process runner resolves or rejects\<close>









section \<open>Listing the recent logs\<close>

lemma by_time_desc_le: "localeCompare (timestamp y) (timestamp x) \<le> 0 \<longleftrightarrow> timestamp y \<le> timestamp x"
  by (auto simp: localeCompare_def)

lemma mset_insort_cmp: "mset (insort_cmp cmp x ys) = add_mset x (mset ys)"
  by (induction ys) auto

lemma mset_sort_cmp: "mset (sort_cmp cmp xs) = mset xs"
  by (induction xs) (auto simp: sort_cmp_def mset_insort_cmp)

lemma set_insort_cmp: "set (insort_cmp cmp x ys) = insert x (set ys)"
  by (induction ys) auto

lemma sorted_insort_time:
  "sorted_wrt (\<lambda>a b. timestamp b \<le> timestamp a) ys \<Longrightarrow>
   sorted_wrt (\<lambda>a b. timestamp b \<le> timestamp a)
     (insort_cmp (\<lambda>a b. localeCompare (timestamp b) (timestamp a)) x ys)"
proof (induction ys)
  case Nil
  show ?case by simp
next
  case (Cons y ys)
  show ?case
  proof (cases "timestamp y \<le> timestamp x")
    case True
    then show ?thesis using Cons.prems by (auto simp: by_time_desc_le)
  next
    case False
    then have "timestamp x \<le> timestamp y" by simp
    then show ?thesis using Cons False
      by (auto simp: by_time_desc_le set_insort_cmp)
  qed
qed

lemma sorted_sort_time:
  "sorted_wrt (\<lambda>a b. timestamp b \<le> timestamp a)
     (sort_cmp (\<lambda>a b. localeCompare (timestamp b) (timestamp a)) xs)"
  by (induction xs) (auto simp: sort_cmp_def sorted_insort_time)

lemma filter_insort_time:
  "filter (\<lambda>e. timestamp e = k) (insort_cmp (\<lambda>a b. localeCompare (timestamp b) (timestamp a)) x ys)
     = filter (\<lambda>e. timestamp e = k) (x # ys)"
  by (induction ys) (auto simp: by_time_desc_le)

lemma filter_sort_time:
  "filter (\<lambda>e. timestamp e = k) (sort_cmp (\<lambda>a b. localeCompare (timestamp b) (timestamp a)) xs)
     = filter (\<lambda>e. timestamp e = k) xs"
  by (induction xs) (auto simp: sort_cmp_def filter_insort_time)

lemma length_sort_cmp: "length (sort_cmp cmp xs) = length xs"
  by (metis mset_sort_cmp size_mset)

text \<open>
  C9. On an empty store \<open>list_logs\<close> returns \<open>No logs available.\<close>; otherwise it prints
  one line for each of the entries \<open>logs\<close>. Those are the first 20 (or all, when there are
  fewer) of an arrangement of the stored entries that descends by timestamp string,
  in which entries with equal timestamps keep their insertion order.
\<close>

theorem list_logs_recent_first:
  "(logStore s = [] \<longrightarrow> list_logs s = ''No logs available.'')
 \<and> (logStore s \<noteq> [] \<longrightarrow> list_logs s = join [NL] (map log_line (recent_logs s)))
 \<and> length (recent_logs s) = min 20 (length (logStore s))
 \<and> (\<exists>rest. sorted_wrt (\<lambda>a b. timestamp b \<le> timestamp a) (recent_logs s @ rest)
         \<and> mset (recent_logs s @ rest) = mset (map snd (logStore s))
         \<and> (\<forall>k. filter (\<lambda>e. timestamp e = k) (recent_logs s @ rest)
                = filter (\<lambda>e. timestamp e = k) (map snd (logStore s))))"
proof -
  let ?all = "sort_cmp (\<lambda>a b. localeCompare (timestamp b) (timestamp a)) (map snd (logStore s))"
  have r: "recent_logs s = take 20 ?all"
    by (simp add: recent_logs_def slice_take)
  have len: "length (recent_logs s) = min 20 (length (logStore s))"
    by (simp add: r length_sort_cmp)
  have split: "recent_logs s @ drop 20 ?all = ?all" by (simp add: r)
  have ex: "\<exists>rest. sorted_wrt (\<lambda>a b. timestamp b \<le> timestamp a) (recent_logs s @ rest)
         \<and> mset (recent_logs s @ rest) = mset (map snd (logStore s))
         \<and> (\<forall>k. filter (\<lambda>e. timestamp e = k) (recent_logs s @ rest)
                = filter (\<lambda>e. timestamp e = k) (map snd (logStore s)))"
    unfolding split
    apply (rule exI[of _ "drop 20 ?all"])
    unfolding split
    by (simp add: sorted_sort_time mset_sort_cmp filter_sort_time)
  have e: "list_logs s = ''No logs available.''" if "logStore s = []"
    using that len by (simp add: list_logs_def Let_def)
  have n: "list_logs s = join [NL] (map log_line (recent_logs s))" if "logStore s \<noteq> []"
  proof -
    have "0 < length (logStore s)" using that by simp
    then have "0 < length (recent_logs s)" using len by simp
    then show ?thesis by (simp add: list_logs_def Let_def)
  qed
  show ?thesis using e n len ex by blast
qed

theorem list_logs_recent_first_witness:
  "list_logs init_state = ''No logs available.''
 \<and> list_logs \<lparr>logStore =
       [(''log-1'', \<lparr>id = ''log-1'', command = ''build'', timestamp = ''2024-05-01T10:00:00.000Z'',
                      stdout = ''a'', stderr = ''b'', exitCode = 0\<rparr>),
        (''log-2'', \<lparr>id = ''log-2'', command = ''flake check'', timestamp = ''2024-05-01T10:00:07.250Z'',
                      stdout = ''c'', stderr = ''d'', exitCode = 1\<rparr>)],
      logCounter = 2\<rparr>
   = ''[log-2] 2024-05-01T10:00:07.250Z - nix flake check (exit: 1)\<newline>[log-1] 2024-05-01T10:00:00.000Z - nix build (exit: 0)''"
proof -
  let ?s = "\<lparr>logStore =
       [(''log-1'', \<lparr>id = ''log-1'', command = ''build'', timestamp = ''2024-05-01T10:00:00.000Z'',
                      stdout = ''a'', stderr = ''b'', exitCode = 0\<rparr>),
        (''log-2'', \<lparr>id = ''log-2'', command = ''flake check'', timestamp = ''2024-05-01T10:00:07.250Z'',
                      stdout = ''c'', stderr = ''d'', exitCode = 1\<rparr>)],
      logCounter = 2\<rparr>"
  have e: "logStore init_state = []" by (simp add: init_state_def)
  have n: "logStore ?s \<noteq> []" by simp
  have v: "join [NL] (map log_line (recent_logs ?s))
     = ''[log-2] 2024-05-01T10:00:07.250Z - nix flake check (exit: 1)\<newline>[log-1] 2024-05-01T10:00:00.000Z - nix build (exit: 0)''"
    by code_simp
  have 1: "list_logs init_state = ''No logs available.''"
    using list_logs_recent_first[of init_state] e by blast
  have 2: "list_logs ?s = join [NL] (map log_line (recent_logs ?s))"
    using list_logs_recent_first[of ?s] n by blast
  show ?thesis using 1 2 unfolding v by simp
qed

section \<open>Truncation by lines\<close>

lemma truncate_lines_long:
  assumes "length lines > 50"
  shows "truncate_lines lines =
           take 25 lines @ [''... ('' @ show_nat (length lines - 50) @ '' lines omitted) ...'']
           @ drop (length lines - 25) lines"
proof -
  have a: "slice lines 0 25 = take 25 lines"
    using slice_take[of 25 lines] by simp
  have b: "slice_from lines (- 25) = drop (length lines - 25) lines"
    using slice_from_last[of 25 lines] by simp
  show ?thesis using assms
    by (simp add: truncate_lines_def MAX_OUTPUT_LINES_def Let_def a b)
qed

lemma scenario_needsLog:
  "needsLog \<lparr>r_stdout = [],
             r_stderr = join [NL] (map (\<lambda>k. ''line '' @ show_nat k) [1..<61]),
             r_exitCode = 1\<rparr>"
  by code_simp

lemma scenario_body:
  "truncate_chars (join [NL] (truncate_lines (split_nl (display_output
       \<lparr>r_stdout = [],
        r_stderr = join [NL] (map (\<lambda>k. ''line '' @ show_nat k) [1..<61]),
        r_exitCode = 1\<rparr>))))
   = join [NL] (map (\<lambda>k. ''line '' @ show_nat k) [1..<26]
                @ [''... (10 lines omitted) ...'']
                @ map (\<lambda>k. ''line '' @ show_nat k) [36..<61])"
  by code_simp

lemma length_truncate_lines_long:
  assumes "length lines > 50"
  shows "length (truncate_lines lines) = 51"
  using assms by (simp add: truncate_lines_long)

text \<open>
  C6, as amended. A display of more than 50 lines is cut to its first 25 lines, one
  marker line that states how many lines were left out, and its last 25 lines: 51 lines,
  of which 50 are lines of the display. A result with empty stdout, 60 plain lines on
  stderr and exit code 1 is archived, and its display is lines 1 to 25, the marker for
  10 lines, lines 36 to 60, a blank line and the footer with the exit code and the id.
\<close>

theorem truncate_lines_head_marker_tail:
  "(length lines > 50 \<longrightarrow>
      truncate_lines lines =
        take 25 lines @ [''... ('' @ show_nat (length lines - 50) @ '' lines omitted) ...'']
        @ drop (length lines - 25) lines
    \<and> length (truncate_lines lines) = 51)
 \<and> needsLog \<lparr>r_stdout = [],
              r_stderr = join [NL] (map (\<lambda>k. ''line '' @ show_nat k) [1..<61]),
              r_exitCode = 1\<rparr>
 \<and> formatResult s now cmd
      \<lparr>r_stdout = [],
       r_stderr = join [NL] (map (\<lambda>k. ''line '' @ show_nat k) [1..<61]),
       r_exitCode = 1\<rparr>
   = (join [NL] (map (\<lambda>k. ''line '' @ show_nat k) [1..<26]
                 @ [''... (10 lines omitted) ...'']
                 @ map (\<lambda>k. ''line '' @ show_nat k) [36..<61])
      @ [NL, NL] @ ''[Exit code: 1 | Full log: use nix_get_log with id='' @ [CHR 0x22]
      @ mk_id (logCounter s + 1) @ [CHR 0x22] @ '']'',
      snd (storeLog s now cmd
        \<lparr>r_stdout = [],
         r_stderr = join [NL] (map (\<lambda>k. ''line '' @ show_nat k) [1..<61]),
         r_exitCode = 1\<rparr>))"
proof -
  let ?r = "\<lparr>r_stdout = [],
             r_stderr = join [NL] (map (\<lambda>k. ''line '' @ show_nat k) [1..<61]),
             r_exitCode = 1\<rparr>"
  have one: "show_int 1 = ''1''" by code_simp
  have foot: "status_footer ?r (Some i) =
      [NL, NL] @ ''[Exit code: 1 | Full log: use nix_get_log with id='' @ [CHR 0x22] @ i @ [CHR 0x22] @ '']''"
    for i
    by (simp add: status_footer_def one)
  have disp: "fst (formatResult s now cmd ?r) =
      join [NL] (map (\<lambda>k. ''line '' @ show_nat k) [1..<26]
                 @ [''... (10 lines omitted) ...'']
                 @ map (\<lambda>k. ''line '' @ show_nat k) [36..<61])
      @ [NL, NL] @ ''[Exit code: 1 | Full log: use nix_get_log with id='' @ [CHR 0x22]
      @ mk_id (logCounter s + 1) @ [CHR 0x22] @ '']''"
    unfolding formatResult_text_archived[OF scenario_needsLog] scenario_body foot ..
  have st: "snd (formatResult s now cmd ?r) = snd (storeLog s now cmd ?r)"
    using scenario_needsLog by (simp only: formatResult_state if_True)
  have pair: "formatResult s now cmd ?r = (fst (formatResult s now cmd ?r), snd (formatResult s now cmd ?r))"
    by simp
  show ?thesis
    using truncate_lines_long[of lines] length_truncate_lines_long[of lines] scenario_needsLog
    by (subst pair, unfold disp st) blast
qed

theorem truncate_lines_head_marker_tail_witness:
  "truncate_lines (map show_nat [1..<61])
     = map show_nat [1..<26] @ [''... (10 lines omitted) ...''] @ map show_nat [36..<61]
 \<and> length (truncate_lines (map show_nat [1..<61])) = 51"
proof -
  have l: "length (map show_nat [1..<61]) > 50" by simp
  have v: "take 25 (map show_nat [1..<61])
        @ [''... ('' @ show_nat (length (map show_nat [1..<61]) - 50) @ '' lines omitted) ...'']
        @ drop (length (map show_nat [1..<61]) - 25) (map show_nat [1..<61])
     = map show_nat [1..<26] @ [''... (10 lines omitted) ...''] @ map show_nat [36..<61]"
    by code_simp
  show ?thesis
    using truncate_lines_head_marker_tail[of "map show_nat [1..<61]" init_state "[]" "[]"] l
    unfolding v by blast
qed

text \<open>
  C6, as first stated, gives the display of such a result 50 lines. It does not have 50:
  the truncated lines are 51, and with the blank line and the footer the text has 53.
\<close>

theorem sixty_line_display_counterexample:
  "length (truncate_lines (split_nl (display_output
      \<lparr>r_stdout = [], r_stderr = join [NL] (replicate 60 ''error''), r_exitCode = 1\<rparr>))) = 51
 \<and> length (truncate_lines (split_nl (display_output
      \<lparr>r_stdout = [], r_stderr = join [NL] (replicate 60 ''error''), r_exitCode = 1\<rparr>))) \<noteq> 50
 \<and> length (split_nl (fst (formatResult init_state ''2024-05-01T10:00:00.000Z'' ''build''
      \<lparr>r_stdout = [], r_stderr = join [NL] (replicate 60 ''error''), r_exitCode = 1\<rparr>))) \<noteq> 50"
  by code_simp

end
